theory Spec2Isabelle
  imports Main "HOL-Library.Word"
begin

section \<open>The bounded channel of \<^verbatim>\<open>q/channel.hpp\<close>\<close>

text \<open>
  \<^verbatim>\<open>std::size_t\<close> is an unsigned 64-bit integer (LP64); arithmetic on it wraps around.
  The length of a \<^verbatim>\<open>std::queue\<close> is read as a natural number and compared with the
  unsigned value of a \<^verbatim>\<open>size_t\<close> field.
\<close>

type_synonym size_t = "64 word"

text \<open>\<^verbatim>\<open>Q_MAKE_SIMPLE_EXCEPTION( channel_closed_exception )\<close>\<close>

datatype exception = channel_closed_exception

text \<open>
  A \<^verbatim>\<open>std::shared_ptr< defer_type >\<close>, a \<^verbatim>\<open>task\<close> (a callable) and a \<^verbatim>\<open>scope\<close> are
  known by their identity only.
\<close>

type_synonym deferred = nat
type_synonym task = nat
type_synonym scope = nat

text \<open>
  \<^verbatim>\<open>return count < 3 ? count : ( ( count * 3 ) / 4 );\<close>
\<close>

definition default_resume_count :: "size_t \<Rightarrow> size_t" where
  "default_resume_count count = (if count < 3 then count else (count * 3) div 4)"

text \<open>
  The fields of \<^verbatim>\<open>shared_channel\<close> that the operations read and write. An empty
  \<^verbatim>\<open>task\<close> is \<open>None\<close>. The executor \<^verbatim>\<open>default_queue_\<close> is an object outside the
  channel; what the channel pushes on it is an effect (below).
\<close>

record 'v shared_channel =
  waiters :: "deferred list"
  queue :: "'v list"
  closed :: bool
  paused :: bool
  buffer_count :: size_t
  resume_count :: size_t
  resume_notification :: "task option"
  scopes :: "scope list"

text \<open>
  The constructor: \<^verbatim>\<open>closed_( false ), paused_( false ), buffer_count_( buffer_count ),
  resume_count_( std::min( resume_count, buffer_count ) )\<close>; the containers start empty
  and the task starts empty.
\<close>

definition new_shared_channel :: "size_t \<Rightarrow> size_t \<Rightarrow> 'v shared_channel" where
  "new_shared_channel bc rc =
     \<lparr>waiters = [], queue = [], closed = False, paused = False,
      buffer_count = bc, resume_count = min rc bc,
      resume_notification = None, scopes = []\<rparr>"

text \<open>
  The two constructors of \<^verbatim>\<open>channel\<close>: with an explicit \<^verbatim>\<open>resume_count\<close>, and with
  \<^verbatim>\<open>detail::default_resume_count( buffer_count )\<close>.
\<close>

definition channel :: "size_t \<Rightarrow> size_t \<Rightarrow> 'v shared_channel" where
  "channel bc rc = new_shared_channel bc rc"

definition channel_default :: "size_t \<Rightarrow> 'v shared_channel" where
  "channel_default bc = channel bc (default_resume_count bc)"

text \<open>
  What an operation does to objects outside the channel's own fields: it completes a
  waiter's deferred (\<^verbatim>\<open>set_value\<close>, \<^verbatim>\<open>set_exception\<close>), destructs a scope, calls the
  resume notification, or pushes the task \<^verbatim>\<open>[ self ]( ) { self->resume( ); }\<close> on
  \<^verbatim>\<open>default_queue_\<close>.
\<close>

datatype 'v effect =
    Set_value deferred 'v
  | Set_exception deferred exception
  | Destruct scope
  | Invoke task
  | Push_resume

text \<open>The promise \<^verbatim>\<open>receive\<close> returns: fulfilled, rejected, or that of a parked deferred.\<close>

datatype 'v promise = Resolved 'v | Rejected exception | Pending deferred

text \<open>\<^verbatim>\<open>if ( fn ) fn( );\<close>\<close>

definition invoke :: "task option \<Rightarrow> 'v effect list" where
  "invoke fn = (case fn of None \<Rightarrow> [] | Some f \<Rightarrow> [Invoke f])"

definition is_closed :: "'v shared_channel \<Rightarrow> bool" where
  "is_closed c = closed c"

text \<open>
  \<^verbatim>\<open>close\<close>: store \<^verbatim>\<open>closed_ = true\<close>, fail every waiter with
  \<^verbatim>\<open>channel_closed_exception\<close>, clear the waiters and the scopes, then (outside the lock)
  call the resume notification if there is one.
\<close>

definition close :: "'v shared_channel \<Rightarrow> 'v shared_channel \<times> 'v effect list" where
  "close c =
     (c\<lparr>closed := True, waiters := [], scopes := []\<rparr>,
      map (\<lambda>w. Set_exception w channel_closed_exception) (waiters c)
        @ map Destruct (scopes c)
        @ invoke (resume_notification c))"

text \<open>
  \<^verbatim>\<open>send\<close>: \<open>Inl (e, c')\<close> is a throw of \<open>e\<close> that leaves the channel as \<open>c'\<close>;
  \<open>Inr (c', es)\<close> is a normal return. The test \<^verbatim>\<open>queue_.size( ) >= buffer_count_\<close>
  reads the size before the push.
\<close>

definition send ::
  "'v shared_channel \<Rightarrow> 'v \<Rightarrow> exception \<times> 'v shared_channel + 'v shared_channel \<times> 'v effect list"
where
  "send c t =
     (if closed c then Inl (channel_closed_exception, c)
      else
        (case waiters c of
           [] \<Rightarrow>
             Inr ((if unat (buffer_count c) \<le> length (queue c) then c\<lparr>paused := True\<rparr> else c)
                    \<lparr>queue := queue c @ [t]\<rparr>, [])
         | waiter # ws \<Rightarrow> Inr (c\<lparr>waiters := ws\<rparr>, [Set_value waiter t])))"

text \<open>
  \<^verbatim>\<open>resume\<close>: \<^verbatim>\<open>if ( paused_.exchange( false ) ) { if ( trigger_resume ) trigger_resume( ); }\<close>
\<close>

definition resume :: "'v shared_channel \<Rightarrow> 'v shared_channel \<times> 'v effect list" where
  "resume c =
     (if paused c then (c\<lparr>paused := False\<rparr>, invoke (resume_notification c))
      else (c\<lparr>paused := False\<rparr>, []))"

text \<open>
  \<^verbatim>\<open>receive\<close>; \<open>d\<close> is the deferred that \<^verbatim>\<open>make_shared< defer_type >\<close> returns to this
  call. On an empty queue a closed channel rejects; an open one parks \<open>d\<close> and calls
  \<^verbatim>\<open>resume( )\<close>. Otherwise the head value is popped and, when fewer than
  \<^verbatim>\<open>resume_count_\<close> values remain, a resume task is pushed on the executor.
\<close>

definition receive ::
  "'v shared_channel \<Rightarrow> deferred \<Rightarrow> 'v promise \<times> 'v shared_channel \<times> 'v effect list"
where
  "receive c d =
     (case queue c of
        [] \<Rightarrow>
          if closed c then (Rejected channel_closed_exception, c, [])
          else (Pending d, resume (c\<lparr>waiters := waiters c @ [d]\<rparr>))
      | t # q \<Rightarrow>
          (Resolved t, c\<lparr>queue := q\<rparr>,
           if length q < unat (resume_count c) then [Push_resume] else []))"

text \<open>\<^verbatim>\<open>return !paused_ && !closed_;\<close>\<close>

definition should_send :: "'v shared_channel \<Rightarrow> bool" where
  "should_send c = (\<not> paused c \<and> \<not> closed c)"

definition set_resume_notification :: "'v shared_channel \<Rightarrow> task option \<Rightarrow> 'v shared_channel" where
  "set_resume_notification c fn = c\<lparr>resume_notification := fn\<rparr>"

text \<open>
  \<^verbatim>\<open>add_scope_until_closed\<close>: a closed channel does not keep the scope (it is not moved
  from, and stays with the caller).
\<close>

definition add_scope_until_closed :: "'v shared_channel \<Rightarrow> scope \<Rightarrow> 'v shared_channel" where
  "add_scope_until_closed c s = (if closed c then c else c\<lparr>scopes := scopes c @ [s]\<rparr>)"

subsection \<open>The channel with its executor\<close>

text \<open>
  The executor's queue holds the resume tasks that \<^verbatim>\<open>receive\<close> pushed and that have not
  run yet; they are all the same task, so a count stands for them. Every operation holds
  the channel's mutex while it touches the fields, so operations are atomic steps.
\<close>

record 'v system =
  chan :: "'v shared_channel"
  default_queue :: nat

datatype 'v operation =
    Send 'v
  | Receive deferred
  | Close
  | Run_resume
  | Set_resume_notification "task option"
  | Add_scope scope

definition pushed :: "'v effect list \<Rightarrow> nat" where
  "pushed es = length (filter (\<lambda>e. e = Push_resume) es)"

text \<open>
  One step. A \<^verbatim>\<open>send\<close> that throws leaves the state as the throw left it. \<open>Run_resume\<close>
  is the executor running one pushed task (nothing happens when none is waiting).
\<close>

definition exec :: "'v operation \<Rightarrow> 'v system \<Rightarrow> 'v system \<times> 'v effect list" where
  "exec x s =
     (case x of
        Send t \<Rightarrow>
          (case send (chan s) t of
             Inl (e, c') \<Rightarrow> (s\<lparr>chan := c'\<rparr>, [])
           | Inr (c', es) \<Rightarrow> (s\<lparr>chan := c'\<rparr>, es))
      | Receive d \<Rightarrow>
          (case receive (chan s) d of
             (p, c', es) \<Rightarrow> (s\<lparr>chan := c', default_queue := default_queue s + pushed es\<rparr>, es))
      | Close \<Rightarrow> (case close (chan s) of (c', es) \<Rightarrow> (s\<lparr>chan := c'\<rparr>, es))
      | Run_resume \<Rightarrow>
          (if default_queue s = 0 then (s, [])
           else (case resume (chan s) of
                   (c', es) \<Rightarrow> (s\<lparr>chan := c', default_queue := default_queue s - 1\<rparr>, es)))
      | Set_resume_notification fn \<Rightarrow> (s\<lparr>chan := set_resume_notification (chan s) fn\<rparr>, [])
      | Add_scope sc \<Rightarrow> (s\<lparr>chan := add_scope_until_closed (chan s) sc\<rparr>, []))"

fun run :: "'v operation list \<Rightarrow> 'v system \<Rightarrow> 'v system" where
  "run [] s = s"
| "run (x # xs) s = run xs (fst (exec x s))"

text \<open>A freshly constructed channel whose executor has nothing to run.\<close>

definition start :: "size_t \<Rightarrow> size_t \<Rightarrow> 'v system" where
  "start bc rc = \<lparr>chan = channel bc rc, default_queue = 0\<rparr>"

text \<open>The states a run passes through, the first one included.\<close>

fun states :: "'v operation list \<Rightarrow> 'v system \<Rightarrow> 'v system list" where
  "states [] s = [s]"
| "states (x # xs) s = s # states xs (fst (exec x s))"

text \<open>
  A producer that honours the hint: it calls \<^verbatim>\<open>send\<close> only when \<^verbatim>\<open>should_send( )\<close>
  is true and no pushed resume task is still waiting on the executor.
\<close>

fun cooperative :: "'v operation list \<Rightarrow> 'v system \<Rightarrow> bool" where
  "cooperative [] s = True"
| "cooperative (x # xs) s =
     ((case x of Send t \<Rightarrow> should_send (chan s) \<and> default_queue s = 0 | _ \<Rightarrow> True)
      \<and> cooperative xs (fst (exec x s)))"

text \<open>A step that takes \<^verbatim>\<open>paused_\<close> from true to false.\<close>

definition unpauses :: "'v operation \<Rightarrow> 'v system \<Rightarrow> bool" where
  "unpauses x s = (paused (chan s) \<and> \<not> paused (chan (fst (exec x s))))"

text \<open>A step that runs the store \<^verbatim>\<open>paused_ = true\<close> of \<^verbatim>\<open>send\<close>.\<close>

definition stores_paused :: "'v operation \<Rightarrow> 'v system \<Rightarrow> bool" where
  "stores_paused x s =
     (case x of
        Send t \<Rightarrow>
          \<not> closed (chan s) \<and> waiters (chan s) = []
          \<and> unat (buffer_count (chan s)) \<le> length (queue (chan s))
      | _ \<Rightarrow> False)"

text \<open>How often a list of effects calls a resume notification.\<close>

definition notified :: "'v effect list \<Rightarrow> nat" where
  "notified es = length (filter (\<lambda>e. case e of Invoke f \<Rightarrow> True | _ \<Rightarrow> False) es)"

text \<open>\<^verbatim>\<open>close\<close> called \<open>k\<close> times in a row, with all the effects.\<close>

fun close_times :: "nat \<Rightarrow> 'v shared_channel \<Rightarrow> 'v shared_channel \<times> 'v effect list" where
  "close_times 0 c = (c, [])"
| "close_times (Suc k) c =
     (case close c of (c', es) \<Rightarrow>
        (case close_times k c' of (c'', es') \<Rightarrow> (c'', es @ es')))"

text \<open>
  The bound kept by a cooperative run: the watermarks are ordered, the queue holds at
  most \<^verbatim>\<open>buffer_count\<close> values, one more while \<^verbatim>\<open>paused_\<close> is set, and at most
  \<^verbatim>\<open>buffer_count\<close> while a resume task is waiting.
\<close>

definition bounded :: "'v system \<Rightarrow> bool" where
  "bounded s =
     (unat (resume_count (chan s)) \<le> unat (buffer_count (chan s))
      \<and> length (queue (chan s))
          \<le> unat (buffer_count (chan s)) + (if paused (chan s) then 1 else 0)
      \<and> (default_queue s = 0 \<or> length (queue (chan s)) \<le> unat (buffer_count (chan s))))"

section \<open>The stream socket of \<^verbatim>\<open>q-io/src/impl/tcp_socket.cpp\<close>\<close>

text \<open>
  The socket talks to libuv and to its channel endpoints, whose code is outside these
  files. Each such call is recorded, in order; a pointer is known by its identity. An
  \<^verbatim>\<open>expect< void >\<close> status is \<open>None\<close> when it holds no exception.
\<close>

type_synonym handle = nat
type_synonym address = nat

datatype byte_block = Byte_block size_t "address option"

datatype 'e call =
    Unset_resume_notification handle
  | Close_endpoint handle "'e option"
  | Uv_read_stop
  | Install_start_read handle
  | I_close_handle
  | Write handle byte_block
  | Should_write handle
  | Delete_array address
  | Read handle
  | Cerr

text \<open>Undefined behaviour the code can run into.\<close>

datatype fault = Null_dereference | End_iterator_dereference

record uv_buf_t =
  base :: "address option"
  len :: size_t

text \<open>\<^verbatim>\<open>write_info{ req_, block_, buf_len_ }\<close>; the request is known by its address.\<close>

record write_info =
  req :: address
  block :: byte_block
  buf_len :: size_t

record pimpl =
  sock_closed :: bool
  writable_in :: "handle option"
  readable_out :: "handle option"
  keep_alive :: bool
  write_reqs :: "write_info list"
  cached_bytes :: size_t
  cache_size :: size_t

text \<open>
  What libuv defines: the code \<^verbatim>\<open>UV_EOF\<close>, and the two translations of an error code
  (\<^verbatim>\<open>uv_error_to_errno\<close>, \<^verbatim>\<open>get_exception_by_errno\<close>), taken as parameters.
\<close>

record 'e uv =
  UV_EOF :: int
  uv_error_to_errno :: "int \<Rightarrow> int"
  get_exception_by_errno :: "int \<Rightarrow> 'e"

text \<open>
  A function of the socket returns \<open>Inr (p, cs)\<close>: the new state and the calls it made;
  or \<open>Inl (f, p, cs)\<close>: it ran into \<open>f\<close> in state \<open>p\<close> after the calls \<open>cs\<close>.
  \<open>then_do\<close> runs the next statement after a normal return.
\<close>

type_synonym 'e outcome = "fault \<times> pimpl \<times> 'e call list + pimpl \<times> 'e call list"

definition then_do :: "'e outcome \<Rightarrow> (pimpl \<Rightarrow> 'e outcome) \<Rightarrow> 'e outcome" where
  "then_do r f =
     (case r of
        Inl x \<Rightarrow> Inl x
      | Inr (p, cs) \<Rightarrow>
          (case f p of
             Inl (e, p', cs') \<Rightarrow> Inl (e, p', cs @ cs')
           | Inr (p', cs') \<Rightarrow> Inr (p', cs @ cs')))"

text \<open>
  \<^verbatim>\<open>stop_read\<close>: \<^verbatim>\<open>uv_read_stop\<close>, and with \<^verbatim>\<open>reschedule\<close> the resume notification
  that calls \<^verbatim>\<open>start_read\<close> is installed through \<^verbatim>\<open>writable_in_\<close>.
\<close>

definition stop_read :: "pimpl \<Rightarrow> bool \<Rightarrow> 'e outcome" where
  "stop_read p reschedule =
     (if \<not> reschedule then Inr (p, [Uv_read_stop])
      else
        (case writable_in p of
           None \<Rightarrow> Inl (Null_dereference, p, [Uv_read_stop])
         | Some w \<Rightarrow> Inr (p, [Uv_read_stop, Install_start_read w])))"

text \<open>
  \<^verbatim>\<open>i_close\<close>. Modelled from the spec: the default argument of \<^verbatim>\<open>stop_read( )\<close> is
  declared in \<^verbatim>\<open>tcp_socket.hpp\<close>, which is not among the files; step 6 of the close
  protocol is "Stop OS reads", so the call is \<^verbatim>\<open>stop_read( false )\<close>.
\<close>

definition i_close :: "pimpl \<Rightarrow> 'e option \<Rightarrow> 'e outcome" where
  "i_close p status =
     (if sock_closed p then Inr (p, [])
      else
        then_do
          (Inr (p\<lparr>sock_closed := True, keep_alive := True\<rparr>,
                (case writable_in p of
                   None \<Rightarrow> []
                 | Some w \<Rightarrow> [Unset_resume_notification w, Close_endpoint w status])
                @ (case readable_out p of
                     None \<Rightarrow> []
                   | Some r \<Rightarrow> [Close_endpoint r status])))
          (\<lambda>p1. then_do (stop_read p1 False)
             (\<lambda>p2. Inr (p2\<lparr>writable_in := None, readable_out := None\<rparr>, [I_close_handle]))))"

text \<open>\<^verbatim>\<open>i_close\<close> called once for each status of a list, in order.\<close>

fun i_close_all :: "'e option list \<Rightarrow> pimpl \<Rightarrow> 'e outcome" where
  "i_close_all [] p = Inr (p, [])"
| "i_close_all (st # sts) p = then_do (i_close p st) (i_close_all sts)"

text \<open>
  \<^verbatim>\<open>read_cb\<close>. \<open>write_ok\<close> is what \<^verbatim>\<open>writable_in_->write( block )\<close> answers and
  \<open>should_write_ok\<close> what \<^verbatim>\<open>writable_in_->should_write( )\<close> answers.
\<close>

definition read_cb ::
  "'e uv \<Rightarrow> bool \<Rightarrow> bool \<Rightarrow> pimpl \<Rightarrow> int \<Rightarrow> uv_buf_t \<Rightarrow> 'e outcome"
where
  "read_cb uv write_ok should_write_ok p nread buf =
     (if 0 < nread then
        (case writable_in p of
           None \<Rightarrow> Inl (Null_dereference, p, [])
         | Some w \<Rightarrow>
             if \<not> write_ok then
               then_do (Inr (p, [Write w (Byte_block (word_of_int nread) (base buf))]))
                 (\<lambda>p. stop_read p False)
             else if \<not> should_write_ok then
               then_do
                 (Inr (p, [Write w (Byte_block (word_of_int nread) (base buf)), Should_write w]))
                 (\<lambda>p. stop_read p True)
             else
               Inr (p, [Write w (Byte_block (word_of_int nread) (base buf)), Should_write w]))
      else
        then_do (Inr (p, case base buf of None \<Rightarrow> [] | Some a \<Rightarrow> [Delete_array a]))
          (\<lambda>p. if nread = UV_EOF uv then i_close p None
                else if nread < 0 then
                  i_close p (Some (get_exception_by_errno uv (uv_error_to_errno uv nread)))
                else Inr (p, [])))"

text \<open>
  \<^verbatim>\<open>begin_write\<close>, up to the registration of the pump on \<^verbatim>\<open>readable_out_\<close>.
\<close>

definition begin_write :: "pimpl \<Rightarrow> 'e outcome" where
  "begin_write p =
     (case readable_out p of
        None \<Rightarrow> Inr (p, [])
      | Some r \<Rightarrow> Inr (p, [Read r]))"

text \<open>
  \<^verbatim>\<open>std::find_if\<close> as the position of the first element that satisfies the predicate;
  the length of the list is \<^verbatim>\<open>end( )\<close>.
\<close>

fun find_if :: "('a \<Rightarrow> bool) \<Rightarrow> 'a list \<Rightarrow> nat" where
  "find_if P [] = 0"
| "find_if P (x # xs) = (if P x then 0 else Suc (find_if P xs))"

definition erase :: "'a list \<Rightarrow> nat \<Rightarrow> 'a list" where
  "erase xs i = take i xs @ drop (Suc i) xs"

text \<open>
  The write completion \<^verbatim>\<open>read_again\<close>. The branch for a request that is not found
  does not return: the statements after it run with \<^verbatim>\<open>iter == end( )\<close>, and
  \<^verbatim>\<open>iter->buf_len_\<close> dereferences the end iterator.
\<close>

definition read_again :: "pimpl \<Rightarrow> address \<Rightarrow> int \<Rightarrow> 'e outcome" where
  "read_again p r status =
     (let iter = find_if (\<lambda>item. r = req item) (write_reqs p) in
      then_do
        (if iter = length (write_reqs p) then then_do (Inr (p, [Cerr])) (\<lambda>p. i_close p None)
         else Inr (p, []))
        (\<lambda>p.
           if iter = length (write_reqs p) then Inl (End_iterator_dereference, p, [])
           else
             (let buf_size = buf_len (write_reqs p ! iter);
                  size_before = cached_bytes p;
                  p' = p\<lparr>write_reqs := erase (write_reqs p) iter,
                         cached_bytes := cached_bytes p - buf_size\<rparr>;
                  should_write_more =
                    (cache_size p' \<le> size_before \<and> cached_bytes p' < cache_size p')
              in
                if status = 0 then (if should_write_more then begin_write p' else Inr (p', []))
                else i_close p' None)))"

section \<open>Example runs\<close>

text \<open>
  A channel with \<^verbatim>\<open>buffer_count = 1\<close> that is paused and resumed twice: the second send
  of each pair finds the queue full; the first resume comes from the executor's task,
  the second from a \<^verbatim>\<open>receive\<close> that finds the queue empty.
\<close>

definition pause_twice :: "nat operation list" where
  "pause_twice =
     [Set_resume_notification (Some 9), Send 1, Send 2, Receive 0, Receive 1, Run_resume,
      Send 3, Send 4, Receive 2, Receive 3, Receive 4]"

text \<open>
  A producer that fills a channel with \<^verbatim>\<open>buffer_count = 4\<close> until it is paused and
  sends again only after the consumer has drained it and the resume task has run.
\<close>

definition fill_and_drain :: "nat operation list" where
  "fill_and_drain =
     [Send 1, Send 2, Send 3, Send 4, Send 5, Receive 0, Receive 1, Receive 2, Run_resume,
      Send 6]"

text \<open>An open socket with both endpoints, and libuv's constants (\<^verbatim>\<open>UV_EOF\<close> is -4095).\<close>

definition connected :: pimpl where
  "connected =
     \<lparr>sock_closed = False, writable_in = Some 1, readable_out = Some 2, keep_alive = True,
      write_reqs = [], cached_bytes = 0, cache_size = 65536\<rparr>"

definition libuv :: "int uv" where
  "libuv = \<lparr>UV_EOF = - 4095, uv_error_to_errno = (\<lambda>e. - e), get_exception_by_errno = (\<lambda>e. e)\<rparr>"

definition allocated :: uv_buf_t where
  "allocated = \<lparr>base = Some 7, len = 65536\<rparr>"

section \<open>Properties of the channel\<close>

subsection \<open>The low watermark\<close>

lemma resume_count_channel: "resume_count (channel bc rc) = min rc bc"
  by (simp add: channel_def new_shared_channel_def)

lemma unat_default_resume_count:
  assumes "3 * unat bc < 2 ^ 64"
  shows "unat (default_resume_count bc) = (if unat bc < 3 then unat bc else (3 * unat bc) div 4)"
proof -
  have "unat (bc * 3) = unat bc * 3"
    using assms by (simp add: unat_word_ariths)
  then have "unat ((bc * 3) div 4) = (unat bc * 3) div 4"
    by (simp add: unat_div)
  moreover have "(bc < 3) = (unat bc < 3)"
    by (simp add: word_less_nat_alt)
  ultimately show ?thesis
    by (simp add: default_resume_count_def mult.commute)
qed

lemma default_resume_count_positive:
  assumes "1 \<le> bc" and "3 * unat bc < 2 ^ 64"
  shows "1 \<le> default_resume_count bc"
proof -
  have u: "unat (default_resume_count bc) = (if unat bc < 3 then unat bc else (3 * unat bc) div 4)"
    using assms(2) by (rule unat_default_resume_count)
  have "1 \<le> unat bc"
    using assms(1) by (simp add: word_le_nat_alt)
  then have "1 \<le> unat (default_resume_count bc)"
    using u by (auto split: if_splits)
  then show ?thesis
    by (simp add: word_le_nat_alt)
qed

text \<open>
  Claim C9 fails as stated: a channel constructed with \<^verbatim>\<open>buffer_count = 4\<close> and an
  explicit \<^verbatim>\<open>resume_count = 0\<close> has the low watermark 0, below 1. The constructor only
  takes the minimum with \<^verbatim>\<open>buffer_count\<close>.
\<close>

theorem resume_count_explicit_zero:
  "resume_count (channel 4 0 :: nat shared_channel) = 0
   \<and> \<not> 1 \<le> resume_count (channel 4 0 :: nat shared_channel)"
  by (simp add: resume_count_channel)

text \<open>
  The default is computed in \<^verbatim>\<open>size_t\<close>: for a \<^verbatim>\<open>buffer_count\<close> above a third of
  \<open>2 ^ 64\<close> the product \<^verbatim>\<open>count * 3\<close> wraps around, here to 2, and the default is 0.
\<close>

lemma default_resume_count_wraps: "default_resume_count 6148914691236517206 = 0"
  by (simp add: default_resume_count_def)

text \<open>
  Claim C9, amended. The constructor stores \<open>min resume_count buffer_count\<close>, so the low
  watermark never exceeds \<^verbatim>\<open>buffer_count\<close>. It is at least 1 when the channel is
  constructed with \<^verbatim>\<open>resume_count \<ge> 1\<close> and \<^verbatim>\<open>buffer_count \<ge> 1\<close>. For the defaulted
  constructor, when \<^verbatim>\<open>buffer_count \<ge> 1\<close> and \<open>3 * buffer_count\<close> does not overflow
  \<^verbatim>\<open>size_t\<close>, it lies between 1 and \<^verbatim>\<open>buffer_count\<close> and equals \<^verbatim>\<open>buffer_count\<close> when
  \<^verbatim>\<open>buffer_count < 3\<close>, else the floor of \<open>3 * buffer_count / 4\<close>.
\<close>

theorem resume_count_bounds:
  "resume_count (channel bc rc :: 'v shared_channel) = min rc bc
   \<and> resume_count (channel bc rc :: 'v shared_channel) \<le> bc
   \<and> (1 \<le> rc \<and> 1 \<le> bc \<longrightarrow> 1 \<le> resume_count (channel bc rc :: 'v shared_channel))
   \<and> resume_count (channel_default bc :: 'v shared_channel) \<le> bc
   \<and> (1 \<le> bc \<and> 3 * unat bc < 2 ^ 64 \<longrightarrow>
        1 \<le> resume_count (channel_default bc :: 'v shared_channel)
        \<and> unat (resume_count (channel_default bc :: 'v shared_channel))
            = (if unat bc < 3 then unat bc else (3 * unat bc) div 4))"
proof -
  have a: "resume_count (channel bc rc :: 'v shared_channel) = min rc bc"
    by (rule resume_count_channel)
  have d: "resume_count (channel_default bc :: 'v shared_channel)
             = min (default_resume_count bc) bc"
    by (simp add: channel_default_def resume_count_channel)
  have e: "unat (min (default_resume_count bc) bc)
             = (if unat bc < 3 then unat bc else (3 * unat bc) div 4)"
    if h: "3 * unat bc < 2 ^ 64"
  proof -
    have u: "unat (default_resume_count bc)
               = (if unat bc < 3 then unat bc else (3 * unat bc) div 4)"
      using h by (rule unat_default_resume_count)
    then have "unat (default_resume_count bc) \<le> unat bc"
      by (auto split: if_splits)
    then have "default_resume_count bc \<le> bc"
      by (simp add: word_le_nat_alt)
    then show ?thesis
      using u by (simp add: min_def)
  qed
  show ?thesis
    using a d e default_resume_count_positive [of bc] by simp
qed

theorem resume_count_bounds_witness:
  "(1 :: size_t) \<le> 3 \<and> (1 :: size_t) \<le> 4 \<and> 3 * unat (4 :: size_t) < 2 ^ 64
   \<and> resume_count (channel 4 3 :: nat shared_channel) = 3
   \<and> resume_count (channel_default 4 :: nat shared_channel) = 3
   \<and> unat (resume_count (channel_default 4 :: nat shared_channel)) = 3"
  using resume_count_bounds [of 4 3, where 'v = nat]
  by (simp add: resume_count_channel channel_default_def default_resume_count_def)

subsection \<open>Sending on a closed channel\<close>

text \<open>
  Claim C10: on a closed channel \<^verbatim>\<open>send\<close> throws \<^verbatim>\<open>channel_closed_exception\<close> and leaves
  every field of the channel (queue, waiters, paused, scopes and the rest) as it was.
\<close>

theorem send_closed_atomic:
  "closed c \<Longrightarrow> send c v = Inl (channel_closed_exception, c)"
  by (simp add: send_def)

theorem send_closed_atomic_witness:
  "closed (fst (close (channel 4 3 :: nat shared_channel)))
   \<and> send (fst (close (channel 4 3 :: nat shared_channel))) 7
       = Inl (channel_closed_exception, fst (close (channel 4 3)))"
proof -
  have h: "closed (fst (close (channel 4 3 :: nat shared_channel)))"
    by (simp add: close_def)
  show ?thesis
    using h send_closed_atomic [OF h, of 7] by simp
qed

subsection \<open>Buffered values and parked receivers\<close>

lemma exec_one_direction:
  assumes "queue (chan s) = [] \<or> waiters (chan s) = []"
  shows "queue (chan (fst (exec x s))) = [] \<or> waiters (chan (fst (exec x s))) = []"
proof (cases x)
  case (Send t)
  then show ?thesis using assms
    by (auto simp: exec_def send_def split: list.splits)
next
  case (Receive d)
  then show ?thesis using assms
    by (auto simp: exec_def receive_def resume_def split: list.splits)
next
  case Close
  then show ?thesis by (simp add: exec_def close_def)
next
  case Run_resume
  then show ?thesis using assms by (auto simp: exec_def resume_def)
next
  case (Set_resume_notification fn)
  then show ?thesis using assms by (simp add: exec_def set_resume_notification_def)
next
  case (Add_scope sc)
  then show ?thesis using assms by (simp add: exec_def add_scope_until_closed_def)
qed

lemma run_one_direction:
  "queue (chan s) = [] \<or> waiters (chan s) = [] \<Longrightarrow>
   queue (chan (run ops s)) = [] \<or> waiters (chan (run ops s)) = []"
proof (induction ops arbitrary: s)
  case Nil
  then show ?case by simp
next
  case (Cons x xs)
  from Cons.prems
  have "queue (chan (fst (exec x s))) = [] \<or> waiters (chan (fst (exec x s))) = []"
    by (rule exec_one_direction)
  then show ?case using Cons.IH by simp
qed

text \<open>
  Claim C4: after any sequence of operations on a constructed channel (sends, receives,
  closes, resume tasks run by the executor, notifications and scopes set), the queue of
  buffered values is empty or the list of waiters is empty.
\<close>

theorem one_direction_nonempty:
  "queue (chan (run ops (start bc rc))) = [] \<or> waiters (chan (run ops (start bc rc))) = []"
  by (rule run_one_direction) (simp add: start_def channel_def new_shared_channel_def)

subsection \<open>Evaluating concrete runs\<close>

lemmas eval_defs = start_def channel_def new_shared_channel_def exec_def send_def receive_def
  resume_def close_def should_send_def invoke_def pushed_def set_resume_notification_def

subsection \<open>How many values the queue holds\<close>

lemma exec_buffer_count: "buffer_count (chan (fst (exec x s))) = buffer_count (chan s)"
  by (cases x)
    (auto simp: exec_def send_def receive_def resume_def close_def set_resume_notification_def
      add_scope_until_closed_def split: list.splits)

lemma run_buffer_count: "buffer_count (chan (run ops s)) = buffer_count (chan s)"
  by (induction ops arbitrary: s) (simp_all add: exec_buffer_count)

lemma pushed_simps: "pushed [] = 0" "pushed [Push_resume] = 1"
  by (simp_all add: pushed_def)

lemma exec_bounded:
  assumes "bounded s"
    and "case x of Send t \<Rightarrow> should_send (chan s) \<and> default_queue s = 0 | _ \<Rightarrow> True"
  shows "bounded (fst (exec x s))"
proof (cases x)
  case (Send t)
  then show ?thesis using assms
    by (auto simp: bounded_def exec_def send_def should_send_def split: list.splits)
next
  case (Receive d)
  then show ?thesis using assms
    by (auto simp: bounded_def exec_def receive_def resume_def pushed_simps
        split: list.splits if_splits)
next
  case Close
  then show ?thesis using assms by (auto simp: bounded_def exec_def close_def)
next
  case Run_resume
  then show ?thesis using assms by (auto simp: bounded_def exec_def resume_def)
next
  case (Set_resume_notification fn)
  then show ?thesis using assms
    by (auto simp: bounded_def exec_def set_resume_notification_def)
next
  case (Add_scope sc)
  then show ?thesis using assms
    by (auto simp: bounded_def exec_def add_scope_until_closed_def)
qed

lemma run_bounded: "bounded s \<Longrightarrow> cooperative ops s \<Longrightarrow> bounded (run ops s)"
proof (induction ops arbitrary: s)
  case Nil
  then show ?case by simp
next
  case (Cons x xs)
  from Cons.prems have "bounded (fst (exec x s))"
    by (intro exec_bounded) simp_all
  moreover from Cons.prems have "cooperative xs (fst (exec x s))"
    by simp
  ultimately show ?case using Cons.IH by simp
qed

lemma start_bounded: "bounded (start bc rc)"
  by (simp add: bounded_def start_def channel_def new_shared_channel_def word_le_nat_alt min_def)

text \<open>
  Claim C1 fails as stated: \<^verbatim>\<open>send\<close> never refuses a value. Three sends on a channel
  with \<^verbatim>\<open>buffer_count = 1\<close> leave three values in the queue, more than the capacity
  even with one extra slot.
\<close>

theorem send_exceeds_capacity:
  "length (queue (chan (run [Send 1, Send 2, Send 3] (start 1 1 :: nat system)))) = 3
   \<and> \<not> length (queue (chan (run [Send 1, Send 2, Send 3] (start 1 1 :: nat system))))
         \<le> unat (1 :: size_t) + 1"
  by (simp add: eval_defs)

text \<open>
  Honouring \<^verbatim>\<open>should_send( )\<close> alone is not enough either: a resume task pushed while
  the queue was short can run after the queue has filled up again, and unpause it. Here
  \<^verbatim>\<open>should_send( )\<close> is true before the last send, which makes six values at capacity 4.
\<close>

lemma stale_resume_overflow:
  "should_send (chan (run [Send 1, Send 2, Send 3, Receive 0, Send 4, Send 5, Send 6, Run_resume]
      (start 4 3 :: nat system)))
   \<and> length (queue (chan (run
        [Send 1, Send 2, Send 3, Receive 0, Send 4, Send 5, Send 6, Run_resume, Send 7]
        (start 4 3 :: nat system)))) = 6"
  by (simp add: eval_defs)

text \<open>
  Claim C1, amended. When every send is made only while \<^verbatim>\<open>should_send( )\<close> is true and
  no pushed resume task is still waiting on the executor, then after any sequence of
  operations on a channel of capacity \<open>B\<close> the queue holds at most \<open>B + 1\<close> values, and
  at most \<open>B\<close> unless \<^verbatim>\<open>paused_\<close> is set.
\<close>

theorem cooperative_queue_bound:
  assumes "cooperative ops (start bc rc)"
  shows "length (queue (chan (run ops (start bc rc))))
           \<le> unat bc + (if paused (chan (run ops (start bc rc))) then 1 else 0)"
proof -
  have "bounded (run ops (start bc rc))"
    using start_bounded assms by (rule run_bounded)
  moreover have "buffer_count (chan (run ops (start bc rc))) = bc"
    by (simp add: run_buffer_count start_def channel_def new_shared_channel_def)
  ultimately show ?thesis
    by (simp add: bounded_def)
qed

theorem cooperative_queue_bound_witness:
  "cooperative fill_and_drain (start 4 3)
   \<and> length (queue (chan (run fill_and_drain (start 4 3))))
       \<le> unat (4 :: size_t) + (if paused (chan (run fill_and_drain (start 4 3))) then 1 else 0)
   \<and> length (queue (chan (run fill_and_drain (start 4 3)))) = 3"
proof -
  have h: "cooperative fill_and_drain (start 4 3)"
    by (simp add: fill_and_drain_def eval_defs)
  have "length (queue (chan (run fill_and_drain (start 4 3)))) = 3"
    by (simp add: fill_and_drain_def eval_defs)
  then show ?thesis
    using h cooperative_queue_bound [OF h] by simp
qed

subsection \<open>When a send pauses the channel\<close>

text \<open>
  Claim C2 fails as stated: \<^verbatim>\<open>send\<close> compares the size of the queue with
  \<^verbatim>\<open>buffer_count_\<close> before the push. After four sends on an empty channel with
  \<^verbatim>\<open>buffer_count = 4\<close> and \<^verbatim>\<open>resume_count = 3\<close> the channel is not paused and
  \<^verbatim>\<open>should_send( )\<close> is true.
\<close>

theorem four_sends_not_paused:
  "\<not> (paused (chan (run [Send 1, Send 2, Send 3, Send 4] (start 4 3 :: nat system))) = True
      \<and> should_send (chan (run [Send 1, Send 2, Send 3, Send 4] (start 4 3 :: nat system)))
          = False)"
  by (simp add: eval_defs)

text \<open>
  Claim C2, amended. On an open channel with no waiters \<^verbatim>\<open>send( v )\<close> pushes \<open>v\<close> onto
  the queue and sets \<^verbatim>\<open>paused_\<close> when the queue already held \<^verbatim>\<open>buffer_count_\<close> values
  or more before the push (it leaves \<^verbatim>\<open>paused_\<close> as it was otherwise). On an empty
  channel with \<^verbatim>\<open>buffer_count = 4\<close> and \<^verbatim>\<open>resume_count = 3\<close>, after four sends
  \<^verbatim>\<open>paused_\<close> is false and \<^verbatim>\<open>should_send( )\<close> true; after the fifth \<^verbatim>\<open>paused_\<close> is true
  and \<^verbatim>\<open>should_send( )\<close> false.
\<close>

theorem send_pauses_when_full:
  assumes "\<not> closed c" and "waiters c = []"
  shows "send c v =
           Inr (c\<lparr>queue := queue c @ [v],
                  paused := (paused c \<or> unat (buffer_count c) \<le> length (queue c))\<rparr>, [])
         \<and> \<not> paused (chan (run [Send 1, Send 2, Send 3, Send 4] (start 4 3 :: nat system)))
         \<and> should_send (chan (run [Send 1, Send 2, Send 3, Send 4] (start 4 3 :: nat system)))
         \<and> paused (chan (run [Send 1, Send 2, Send 3, Send 4, Send 5] (start 4 3 :: nat system)))
         \<and> \<not> should_send
               (chan (run [Send 1, Send 2, Send 3, Send 4, Send 5] (start 4 3 :: nat system)))"
proof -
  have "send c v =
          Inr (c\<lparr>queue := queue c @ [v],
                 paused := (paused c \<or> unat (buffer_count c) \<le> length (queue c))\<rparr>, [])"
    using assms by (simp add: send_def)
  moreover
  have "\<not> paused (chan (run [Send 1, Send 2, Send 3, Send 4] (start 4 3 :: nat system)))"
    by (simp add: eval_defs)
  moreover
  have "\<not> closed (chan (run [Send 1, Send 2, Send 3, Send 4] (start 4 3 :: nat system)))"
    by (simp add: eval_defs)
  moreover
  have "paused (chan (run [Send 1, Send 2, Send 3, Send 4, Send 5] (start 4 3 :: nat system)))"
    by (simp add: eval_defs)
  ultimately show ?thesis
    by (simp add: should_send_def)
qed

theorem send_pauses_when_full_witness:
  "\<not> closed (chan (run [Send 1, Send 2, Send 3, Send 4] (start 4 3 :: nat system)))
   \<and> waiters (chan (run [Send 1, Send 2, Send 3, Send 4] (start 4 3 :: nat system))) = []
   \<and> send (chan (run [Send 1, Send 2, Send 3, Send 4] (start 4 3 :: nat system))) 5
       = Inr (\<lparr>waiters = [], queue = [1, 2, 3, 4, 5], closed = False, paused = True,
               buffer_count = 4, resume_count = 3, resume_notification = None,
               scopes = []\<rparr>, [])"
proof -
  have h1: "\<not> closed (chan (run [Send 1, Send 2, Send 3, Send 4] (start 4 3 :: nat system)))"
    by (simp add: eval_defs)
  have h2: "waiters (chan (run [Send 1, Send 2, Send 3, Send 4] (start 4 3 :: nat system))) = []"
    by (simp add: eval_defs)
  have "chan (run [Send 1, Send 2, Send 3, Send 4] (start 4 3 :: nat system))
          = \<lparr>waiters = [], queue = [1, 2, 3, 4], closed = False, paused = False,
             buffer_count = 4, resume_count = 3, resume_notification = None, scopes = []\<rparr>"
    by (simp add: eval_defs)
  then show ?thesis
    using h1 h2 send_pauses_when_full [OF h1 h2, of 5] by simp
qed

subsection \<open>Receiving after close\<close>

lemma exec_closed: "closed (chan s) \<Longrightarrow> closed (chan (fst (exec x s)))"
  by (cases x)
    (auto simp: exec_def send_def receive_def resume_def close_def set_resume_notification_def
      add_scope_until_closed_def split: list.splits)

lemma run_closed: "closed (chan s) \<Longrightarrow> closed (chan (run ops s))"
  by (induction ops arbitrary: s) (simp_all add: exec_closed)

lemma receive_closed:
  "closed c \<Longrightarrow>
   fst (receive c d)
     = (case queue c of [] \<Rightarrow> Rejected channel_closed_exception | t # q \<Rightarrow> Resolved t)"
  by (simp add: receive_def split: list.splits)

text \<open>
  Claim C3 fails as stated: \<^verbatim>\<open>receive\<close> looks at the queue first. A value sent before
  the close is still delivered after it: the promise is fulfilled, not rejected.
\<close>

theorem receive_after_close_buffered:
  "closed (chan (run [Send 7, Close] (start 4 3 :: nat system)))
   \<and> fst (receive (chan (run [Send 7, Close] (start 4 3 :: nat system))) 0) = Resolved 7
   \<and> fst (receive (chan (run [Send 7, Close] (start 4 3 :: nat system))) 0)
       \<noteq> Rejected channel_closed_exception"
  by (simp add: eval_defs)

text \<open>
  Claim C3, amended. Once \<^verbatim>\<open>close\<close> has been called on a channel (in any state), the
  channel stays closed through every later operation, and every later \<^verbatim>\<open>receive\<close>
  returns a promise rejected with \<^verbatim>\<open>channel_closed_exception\<close> when the queue is empty,
  and a promise fulfilled with the head value while buffered values remain. (The
  \<^verbatim>\<open>close\<close> of \<^verbatim>\<open>channel.hpp\<close> takes no cause.)
\<close>

theorem receive_after_close:
  "closed (chan (run ops (fst (exec Close s))))
   \<and> fst (receive (chan (run ops (fst (exec Close s)))) d)
       = (case queue (chan (run ops (fst (exec Close s)))) of
            [] \<Rightarrow> Rejected channel_closed_exception
          | t # q \<Rightarrow> Resolved t)"
proof -
  have "closed (chan (fst (exec Close s)))"
    by (simp add: exec_def close_def)
  then have "closed (chan (run ops (fst (exec Close s))))"
    by (rule run_closed)
  then show ?thesis
    by (simp add: receive_closed)
qed

subsection \<open>Pausing and resuming\<close>

lemma rising_edge:
  fixes b :: "nat \<Rightarrow> bool"
  shows "\<not> b m \<Longrightarrow> b n \<Longrightarrow> m \<le> n \<Longrightarrow> \<exists>k. m \<le> k \<and> k < n \<and> \<not> b k \<and> b (Suc k)"
proof (induction n)
  case 0
  then show ?case by simp
next
  case (Suc n)
  from Suc.prems have mn: "m \<le> n"
    by (metis le_SucE)
  show ?case
  proof (cases "b n")
    case True
    with Suc.IH Suc.prems(1) mn obtain k where "m \<le> k" "k < n" "\<not> b k" "b (Suc k)"
      by blast
    then show ?thesis
      by (meson less_Suc_eq)
  next
    case False
    with mn Suc.prems(2) show ?thesis
      by blast
  qed
qed

lemma states_Suc:
  "k < length ops \<Longrightarrow> states ops s ! Suc k = fst (exec (ops ! k) (states ops s ! k))"
proof (induction ops arbitrary: s k)
  case Nil
  then show ?case by simp
next
  case (Cons x xs)
  show ?case
  proof (cases k)
    case 0
    then show ?thesis by (cases xs) simp_all
  next
    case (Suc j)
    with Cons.prems have "j < length xs" by simp
    then show ?thesis using Cons.IH Suc by simp
  qed
qed

lemma pause_is_send:
  assumes "\<not> paused (chan s)" and "paused (chan (fst (exec x s)))"
  shows "stores_paused x s"
proof (cases x)
  case (Send t)
  then show ?thesis using assms
    by (auto simp: stores_paused_def exec_def send_def split: list.splits if_splits)
next
  case (Receive d)
  then show ?thesis using assms
    by (auto simp: exec_def receive_def resume_def split: list.splits if_splits)
next
  case Close
  then show ?thesis using assms by (simp add: exec_def close_def)
next
  case Run_resume
  then show ?thesis using assms by (auto simp: exec_def resume_def split: if_splits)
next
  case (Set_resume_notification fn)
  then show ?thesis using assms by (simp add: exec_def set_resume_notification_def)
next
  case (Add_scope sc)
  then show ?thesis using assms
    by (auto simp: exec_def add_scope_until_closed_def split: if_splits)
qed

lemma notified_simps:
  "notified [] = 0" "notified [Push_resume] = 0" "notified [Set_value w t] = 0"
  "notified (invoke fn :: 'v effect list) = (if fn = None then 0 else 1)"
  by (auto simp: notified_def invoke_def)

lemma notified_step:
  "notified (snd (exec x s)) =
     (if x = Close then (if resume_notification (chan s) = None then 0 else 1)
      else if unpauses x s \<and> resume_notification (chan s) \<noteq> None then 1 else 0)"
proof (cases x)
  case (Send t)
  then show ?thesis
    by (auto simp: unpauses_def exec_def send_def notified_simps split: list.splits)
next
  case (Receive d)
  then show ?thesis
    by (auto simp: unpauses_def exec_def receive_def resume_def notified_simps
        split: list.splits)
next
  case Close
  then show ?thesis
    by (simp add: exec_def close_def notified_def invoke_def split: option.splits)
next
  case Run_resume
  then show ?thesis
    by (auto simp: unpauses_def exec_def resume_def notified_simps)
next
  case (Set_resume_notification fn)
  then show ?thesis
    by (simp add: unpauses_def exec_def set_resume_notification_def notified_simps)
next
  case (Add_scope sc)
  then show ?thesis
    by (simp add: unpauses_def exec_def add_scope_until_closed_def notified_simps)
qed

text \<open>
  Claim C5. In any run from any state, between two steps that take \<^verbatim>\<open>paused_\<close> from
  true to false there is a \<^verbatim>\<open>send\<close> that stores \<^verbatim>\<open>paused_ = true\<close>. A step that takes
  \<^verbatim>\<open>paused_\<close> from true to false calls the resume notification once when one is
  installed; a step that does not, other than \<^verbatim>\<open>close\<close>, never calls it; no step calls
  it twice; and a \<^verbatim>\<open>resume( )\<close> that follows a \<^verbatim>\<open>resume( )\<close> calls nothing. (\<^verbatim>\<open>close\<close>
  calls the notification on its own account, without touching \<^verbatim>\<open>paused_\<close>.)
\<close>

theorem resume_once:
  "(i < j \<and> j < length ops
      \<and> unpauses (ops ! i) (states ops init ! i) \<and> unpauses (ops ! j) (states ops init ! j)
     \<longrightarrow> (\<exists>k. i < k \<and> k < j \<and> stores_paused (ops ! k) (states ops init ! k)))
   \<and> notified (snd (exec x s))
       = (if x = Close then notified (invoke (resume_notification (chan s)) :: 'v effect list)
          else if unpauses x s \<and> resume_notification (chan s) \<noteq> None then 1 else 0)
   \<and> notified (snd (exec x (s :: 'v system))) \<le> 1
   \<and> snd (resume (fst (resume c))) = []"
proof -
  have a: "\<exists>k. i < k \<and> k < j \<and> stores_paused (ops ! k) (states ops init ! k)"
    if h: "i < j" "j < length ops"
      "unpauses (ops ! i) (states ops init ! i)" "unpauses (ops ! j) (states ops init ! j)"
  proof -
    define b where "b = (\<lambda>n. paused (chan (states ops init ! n)))"
    have "i < length ops" using h by simp
    then have "states ops init ! Suc i = fst (exec (ops ! i) (states ops init ! i))"
      by (rule states_Suc)
    then have "\<not> b (Suc i)" using h(3) by (simp add: b_def unpauses_def)
    moreover have "b j" using h(4) by (simp add: b_def unpauses_def)
    moreover have "Suc i \<le> j" using h(1) by simp
    ultimately obtain k where k: "Suc i \<le> k" "k < j" "\<not> b k" "b (Suc k)"
      using rising_edge [of b "Suc i" j] by blast
    have "k < length ops" using k(2) h(2) by simp
    then have "states ops init ! Suc k = fst (exec (ops ! k) (states ops init ! k))"
      by (rule states_Suc)
    then have "stores_paused (ops ! k) (states ops init ! k)"
      using k(3,4) by (intro pause_is_send) (simp_all add: b_def)
    moreover have "i < k" using k(1) by simp
    ultimately show ?thesis using k(2) by blast
  qed
  have b: "notified (snd (exec x s))
       = (if x = Close then notified (invoke (resume_notification (chan s)) :: 'v effect list)
          else if unpauses x s \<and> resume_notification (chan s) \<noteq> None then 1 else 0)"
    by (simp add: notified_step notified_simps)
  have c: "notified (snd (exec x s)) \<le> 1"
    by (simp add: notified_step)
  have d: "snd (resume (fst (resume c))) = []"
    by (simp add: resume_def)
  show ?thesis using a b c d by blast
qed

theorem resume_once_witness:
  "(5 :: nat) < 10 \<and> 10 < length pause_twice
   \<and> unpauses (pause_twice ! 5) (states pause_twice (start 1 1) ! 5)
   \<and> unpauses (pause_twice ! 10) (states pause_twice (start 1 1) ! 10)
   \<and> (\<exists>k. 5 < k \<and> k < 10 \<and> stores_paused (pause_twice ! k) (states pause_twice (start 1 1) ! k))
   \<and> stores_paused (pause_twice ! 7) (states pause_twice (start 1 1) ! 7)
   \<and> notified (snd (exec (pause_twice ! 5) (states pause_twice (start 1 1) ! 5))) = 1"
proof -
  have s5: "states pause_twice (start 1 1) ! 5 =
      \<lparr>chan = \<lparr>waiters = [], queue = [], closed = False, paused = True, buffer_count = 1,
               resume_count = 1, resume_notification = Some 9, scopes = []\<rparr>,
       default_queue = 1\<rparr>"
    by (simp add: pause_twice_def eval_defs)
  have s7: "states pause_twice (start 1 1) ! 7 =
      \<lparr>chan = \<lparr>waiters = [], queue = [3], closed = False, paused = False, buffer_count = 1,
               resume_count = 1, resume_notification = Some 9, scopes = []\<rparr>,
       default_queue = 0\<rparr>"
    by (simp add: pause_twice_def eval_defs)
  have s10: "states pause_twice (start 1 1) ! 10 =
      \<lparr>chan = \<lparr>waiters = [], queue = [], closed = False, paused = True, buffer_count = 1,
               resume_count = 1, resume_notification = Some 9, scopes = []\<rparr>,
       default_queue = 1\<rparr>"
    by (simp add: pause_twice_def eval_defs)
  have h: "(5 :: nat) < 10 \<and> 10 < length pause_twice
      \<and> unpauses (pause_twice ! 5) (states pause_twice (start 1 1) ! 5)
      \<and> unpauses (pause_twice ! 10) (states pause_twice (start 1 1) ! 10)"
    unfolding s5 s10 by (simp add: pause_twice_def unpauses_def eval_defs)
  have t: "stores_paused (pause_twice ! 7) (states pause_twice (start 1 1) ! 7)"
    unfolding s7 by (simp add: pause_twice_def stores_paused_def)
  note r = resume_once [of 5 10 pause_twice "start 1 1" "pause_twice ! 5"
      "states pause_twice (start 1 1) ! 5" "chan (start 1 1)"]
  have e: "\<exists>k. 5 < k \<and> k < 10
      \<and> stores_paused (pause_twice ! k) (states pause_twice (start 1 1) ! k)"
    using r h by blast
  have "pause_twice ! 5 \<noteq> Close"
    by (simp add: pause_twice_def)
  moreover have "resume_notification (chan (states pause_twice (start 1 1) ! 5)) \<noteq> None"
    unfolding s5 by simp
  ultimately
  have n: "notified (snd (exec (pause_twice ! 5) (states pause_twice (start 1 1) ! 5))) = 1"
    using r h by auto
  show ?thesis using h e t n by blast
qed

subsection \<open>Closing more than once\<close>

lemma close_again: "close (fst (close c)) = (fst (close c), invoke (resume_notification c))"
  by (simp add: close_def)

lemma close_times_closed:
  "close_times k (fst (close c))
     = (fst (close c), concat (replicate k (invoke (resume_notification c))))"
proof (induction k)
  case 0
  then show ?case by simp
next
  case (Suc k)
  have "close (fst (close c)) = (fst (close c), invoke (resume_notification c))"
    by (rule close_again)
  then show ?case using Suc.IH by simp
qed

lemma close_times_Suc:
  "close_times (Suc k) c
     = (fst (close c), snd (close c) @ concat (replicate k (invoke (resume_notification c))))"
proof -
  obtain c' es where ce: "close c = (c', es)"
    by (cases "close c")
  then have "c' = fst (close c)"
    by simp
  then have "close_times k c'
      = (fst (close c), concat (replicate k (invoke (resume_notification c))))"
    by (simp add: close_times_closed)
  then show ?thesis using ce by simp
qed

lemma i_close_open:
  "\<not> sock_closed p \<Longrightarrow>
   i_close p st =
     Inr (p\<lparr>sock_closed := True, keep_alive := True, writable_in := None, readable_out := None\<rparr>,
          (case writable_in p of
             None \<Rightarrow> []
           | Some w \<Rightarrow> [Unset_resume_notification w, Close_endpoint w st])
          @ (case readable_out p of None \<Rightarrow> [] | Some r \<Rightarrow> [Close_endpoint r st])
          @ [Uv_read_stop, I_close_handle])"
  by (simp add: i_close_def then_do_def stop_read_def)

lemma i_close_closed: "sock_closed p \<Longrightarrow> i_close p st = Inr (p, [])"
  by (simp add: i_close_def)

lemma i_close_all_closed: "sock_closed p \<Longrightarrow> i_close_all sts p = Inr (p, [])"
  by (induction sts) (simp_all add: i_close_closed then_do_def)

lemma i_close_returns: "\<exists>p' cs. i_close p st = Inr (p', cs) \<and> sock_closed p'"
proof (cases "sock_closed p")
  case True
  then show ?thesis by (simp add: i_close_closed)
next
  case False
  then show ?thesis by (simp add: i_close_open)
qed

lemma i_close_all_Cons: "i_close_all (st # sts) p = i_close p st"
proof -
  obtain p' cs where h: "i_close p st = Inr (p', cs)" "sock_closed p'"
    using i_close_returns by blast
  then have "i_close_all sts p' = Inr (p', [])"
    by (simp add: i_close_all_closed)
  then show ?thesis using h(1) by (simp add: then_do_def)
qed

text \<open>
  Claim C6 fails as stated for the channel: \<^verbatim>\<open>close\<close> has no test of \<^verbatim>\<open>closed_\<close>, and
  every call of it calls the resume notification. With a notification installed, two
  closes call it twice and one close calls it once.
\<close>

theorem close_twice_notifies_twice:
  "snd (close_times 1 (set_resume_notification (channel 4 3 :: nat shared_channel) (Some 0)))
     = [Invoke 0]
   \<and> snd (close_times 2 (set_resume_notification (channel 4 3 :: nat shared_channel) (Some 0)))
     = [Invoke 0, Invoke 0]
   \<and> close_times 2 (set_resume_notification (channel 4 3 :: nat shared_channel) (Some 0))
     \<noteq> close_times 1 (set_resume_notification (channel 4 3 :: nat shared_channel) (Some 0))"
  by (simp add: numeral_2_eq_2 eval_defs)

text \<open>
  Claim C6, amended. Calling \<^verbatim>\<open>close\<close> on a channel \<open>k + 1\<close> times leaves the channel in
  the state one call leaves it in, and has the effects of one call (the waiters failed,
  the scopes released, the notification called) followed by one more call of the resume
  notification, if one is installed, for each of the \<open>k\<close> further closes. The socket's
  \<^verbatim>\<open>i_close\<close> called any number of times, with any statuses, does exactly what its
  first call does.
\<close>

theorem close_repeated:
  "fst (close_times (Suc k) c) = fst (close c)
   \<and> snd (close_times (Suc k) c)
       = snd (close c) @ concat (replicate k (invoke (resume_notification c)))
   \<and> i_close_all (st # sts) p = i_close p st"
  by (simp only: close_times_Suc i_close_all_Cons fst_conv snd_conv simp_thms)

section \<open>Properties of the socket\<close>

subsection \<open>The read completion\<close>

lemma stop_read_no_reschedule: "stop_read p False = Inr (p, [Uv_read_stop])"
  by (simp add: stop_read_def)

lemma stop_read_reschedule:
  "writable_in p = Some w \<Longrightarrow> stop_read p True = Inr (p, [Uv_read_stop, Install_start_read w])"
  by (simp add: stop_read_def)

text \<open>
  Claim C7. \<^verbatim>\<open>UV_EOF\<close> is a negative code. For a read completion with byte count \<open>n\<close>:
  when \<open>n > 0\<close> (and the inbound writable \<open>w\<close> is there) the bytes are wrapped as a
  block and written to \<open>w\<close>; if the write reports the channel closed the socket stops
  reading without rescheduling; else if \<^verbatim>\<open>should_write( )\<close> is false it stops reading
  and installs the notification that restarts it; else it goes on reading. When
  \<open>n = UV_EOF\<close> the buffer, if one was allocated, is freed and \<^verbatim>\<open>i_close\<close> runs with no
  error. For any other \<open>n < 0\<close> the buffer is freed and \<^verbatim>\<open>i_close\<close> runs with the
  translated error. In both cases the calls are the free followed by those of
  \<^verbatim>\<open>i_close\<close>, which returns.
\<close>

theorem read_cb_cases:
  assumes "UV_EOF uv < 0"
  shows
    "(0 < n \<and> writable_in p = Some w \<and> \<not> write_ok \<longrightarrow>
        read_cb uv write_ok should_write_ok p n buf
          = Inr (p, [Write w (Byte_block (word_of_int n) (base buf)), Uv_read_stop]))
     \<and> (0 < n \<and> writable_in p = Some w \<and> write_ok \<and> \<not> should_write_ok \<longrightarrow>
        read_cb uv write_ok should_write_ok p n buf
          = Inr (p, [Write w (Byte_block (word_of_int n) (base buf)), Should_write w,
                     Uv_read_stop, Install_start_read w]))
     \<and> (0 < n \<and> writable_in p = Some w \<and> write_ok \<and> should_write_ok \<longrightarrow>
        read_cb uv write_ok should_write_ok p n buf
          = Inr (p, [Write w (Byte_block (word_of_int n) (base buf)), Should_write w]))
     \<and> (n = UV_EOF uv \<longrightarrow>
        (\<exists>p' cs. i_close p None = Inr (p', cs)
           \<and> read_cb uv write_ok should_write_ok p n buf
               = Inr (p', (case base buf of None \<Rightarrow> [] | Some a \<Rightarrow> [Delete_array a]) @ cs)))
     \<and> (n < 0 \<and> n \<noteq> UV_EOF uv \<longrightarrow>
        (\<exists>p' cs.
           i_close p (Some (get_exception_by_errno uv (uv_error_to_errno uv n))) = Inr (p', cs)
           \<and> read_cb uv write_ok should_write_ok p n buf
               = Inr (p', (case base buf of None \<Rightarrow> [] | Some a \<Rightarrow> [Delete_array a]) @ cs)))"
proof -
  have d1: "0 < n \<and> writable_in p = Some w \<and> \<not> write_ok \<longrightarrow>
        read_cb uv write_ok should_write_ok p n buf
          = Inr (p, [Write w (Byte_block (word_of_int n) (base buf)), Uv_read_stop])"
    by (simp add: read_cb_def then_do_def stop_read_def)
  have d2: "0 < n \<and> writable_in p = Some w \<and> write_ok \<and> \<not> should_write_ok \<longrightarrow>
        read_cb uv write_ok should_write_ok p n buf
          = Inr (p, [Write w (Byte_block (word_of_int n) (base buf)), Should_write w,
                     Uv_read_stop, Install_start_read w])"
    by (simp add: read_cb_def then_do_def stop_read_def)
  have d3: "0 < n \<and> writable_in p = Some w \<and> write_ok \<and> should_write_ok \<longrightarrow>
        read_cb uv write_ok should_write_ok p n buf
          = Inr (p, [Write w (Byte_block (word_of_int n) (base buf)), Should_write w])"
    by (simp add: read_cb_def then_do_def stop_read_def)
  have eof: "\<exists>p' cs. i_close p None = Inr (p', cs)
           \<and> read_cb uv write_ok should_write_ok p n buf
               = Inr (p', (case base buf of None \<Rightarrow> [] | Some a \<Rightarrow> [Delete_array a]) @ cs)"
    if "n = UV_EOF uv"
  proof -
    obtain p' cs where h: "i_close p (None :: 'a option) = Inr (p', cs)"
      using i_close_returns by blast
    have "\<not> 0 < n"
      using that assms by simp
    then have "read_cb uv write_ok should_write_ok p n buf
               = Inr (p', (case base buf of None \<Rightarrow> [] | Some a \<Rightarrow> [Delete_array a]) @ cs)"
      using that h by (simp add: read_cb_def then_do_def)
    then show ?thesis using h by blast
  qed
  have err: "\<exists>p' cs.
           i_close p (Some (get_exception_by_errno uv (uv_error_to_errno uv n))) = Inr (p', cs)
           \<and> read_cb uv write_ok should_write_ok p n buf
               = Inr (p', (case base buf of None \<Rightarrow> [] | Some a \<Rightarrow> [Delete_array a]) @ cs)"
    if "n < 0" "n \<noteq> UV_EOF uv"
  proof -
    obtain p' cs where
      h: "i_close p (Some (get_exception_by_errno uv (uv_error_to_errno uv n))) = Inr (p', cs)"
      using i_close_returns by blast
    have "read_cb uv write_ok should_write_ok p n buf
               = Inr (p', (case base buf of None \<Rightarrow> [] | Some a \<Rightarrow> [Delete_array a]) @ cs)"
      using that h by (simp add: read_cb_def then_do_def)
    then show ?thesis using h by blast
  qed
  show ?thesis
    using d1 d2 d3 eof err by blast
qed

theorem read_cb_cases_witness:
  "UV_EOF libuv < 0 \<and> writable_in connected = Some 1
   \<and> read_cb libuv False True connected 10 allocated
       = Inr (connected, [Write 1 (Byte_block 10 (Some 7)), Uv_read_stop])
   \<and> read_cb libuv True False connected 10 allocated
       = Inr (connected, [Write 1 (Byte_block 10 (Some 7)), Should_write 1, Uv_read_stop,
                          Install_start_read 1])
   \<and> read_cb libuv True True connected 10 allocated
       = Inr (connected, [Write 1 (Byte_block 10 (Some 7)), Should_write 1])
   \<and> read_cb libuv True True connected (- 4095) allocated
       = Inr (connected\<lparr>sock_closed := True, writable_in := None, readable_out := None\<rparr>,
              [Delete_array 7, Unset_resume_notification 1, Close_endpoint 1 None,
               Close_endpoint 2 None, Uv_read_stop, I_close_handle])
   \<and> read_cb libuv True True connected (- 104) allocated
       = Inr (connected\<lparr>sock_closed := True, writable_in := None, readable_out := None\<rparr>,
              [Delete_array 7, Unset_resume_notification 1, Close_endpoint 1 (Some 104),
               Close_endpoint 2 (Some 104), Uv_read_stop, I_close_handle])"
proof -
  have u: "UV_EOF libuv < 0"
    by (simp add: libuv_def)
  have w: "writable_in connected = Some 1"
    by (simp add: connected_def)
  note r = read_cb_cases [OF u, where p = connected and w = 1 and buf = allocated]
  have b: "base allocated = Some 7"
    by (simp add: allocated_def)
  have c1: "read_cb libuv False True connected 10 allocated
       = Inr (connected, [Write 1 (Byte_block 10 (Some 7)), Uv_read_stop])"
    using r [of 10 False True] w b by simp
  have c2: "read_cb libuv True False connected 10 allocated
       = Inr (connected, [Write 1 (Byte_block 10 (Some 7)), Should_write 1, Uv_read_stop,
                          Install_start_read 1])"
    using r [of 10 True False] w b by simp
  have c3: "read_cb libuv True True connected 10 allocated
       = Inr (connected, [Write 1 (Byte_block 10 (Some 7)), Should_write 1])"
    using r [of 10 True True] w b by simp
  have o: "\<not> sock_closed connected"
    by (simp add: connected_def)
  have k: "connected\<lparr>sock_closed := True, keep_alive := True, writable_in := None,
             readable_out := None\<rparr>
           = connected\<lparr>sock_closed := True, writable_in := None, readable_out := None\<rparr>"
    by (simp add: connected_def)
  have i: "i_close connected st
       = Inr (connected\<lparr>sock_closed := True, writable_in := None, readable_out := None\<rparr>,
              [Unset_resume_notification 1, Close_endpoint 1 st, Close_endpoint 2 st,
               Uv_read_stop, I_close_handle])" for st :: "int option"
    using i_close_open [OF o, of st] k by (simp add: connected_def)
  have c4: "read_cb libuv True True connected (- 4095) allocated
       = Inr (connected\<lparr>sock_closed := True, writable_in := None, readable_out := None\<rparr>,
              [Delete_array 7, Unset_resume_notification 1, Close_endpoint 1 None,
               Close_endpoint 2 None, Uv_read_stop, I_close_handle])"
    using r [of "- 4095" True True] b i [of None] by (auto simp: libuv_def)
  have c5: "read_cb libuv True True connected (- 104) allocated
       = Inr (connected\<lparr>sock_closed := True, writable_in := None, readable_out := None\<rparr>,
              [Delete_array 7, Unset_resume_notification 1, Close_endpoint 1 (Some 104),
               Close_endpoint 2 (Some 104), Uv_read_stop, I_close_handle])"
    using r [of "- 104" True True] b i [of "Some 104"] by (auto simp: libuv_def)
  show ?thesis
    using u w c1 c2 c3 c4 c5 by blast
qed

subsection \<open>The write completion\<close>

lemma find_if_le: "find_if P xs \<le> length xs"
  by (induction xs) simp_all

lemma find_if_found: "find_if P xs < length xs \<Longrightarrow> P (xs ! find_if P xs)"
  by (induction xs) (auto split: if_splits)

text \<open>
  A completion whose request is in \<^verbatim>\<open>write_reqs_\<close>: the handler returns, the descriptor
  found is the one of the request, \<^verbatim>\<open>cached_bytes_\<close> has gone down by its \<^verbatim>\<open>buf_len_\<close>
  (in \<^verbatim>\<open>size_t\<close> arithmetic) and the descriptor is erased.
\<close>

lemma read_again_found:
  assumes "find_if (\<lambda>item. r = req item) (write_reqs p) < length (write_reqs p)"
  shows "\<exists>p' cs. read_again p r status = (Inr (p', cs) :: 'e outcome)
           \<and> req (write_reqs p ! find_if (\<lambda>item. r = req item) (write_reqs p)) = r
           \<and> cached_bytes p'
               = cached_bytes p
                 - buf_len (write_reqs p ! find_if (\<lambda>item. r = req item) (write_reqs p))
           \<and> write_reqs p'
               = erase (write_reqs p) (find_if (\<lambda>item. r = req item) (write_reqs p))"
proof -
  define i where "i = find_if (\<lambda>item. r = req item) (write_reqs p)"
  define p1 where
    "p1 = p\<lparr>write_reqs := erase (write_reqs p) i,
            cached_bytes := cached_bytes p - buf_len (write_reqs p ! i)\<rparr>"
  have lt: "i < length (write_reqs p)"
    using assms by (simp add: i_def)
  have "r = req (write_reqs p ! i)"
    unfolding i_def using assms by (rule find_if_found)
  moreover
  have "\<exists>p' cs. read_again p r status = (Inr (p', cs) :: 'e outcome)
          \<and> cached_bytes p' = cached_bytes p1 \<and> write_reqs p' = write_reqs p1"
  proof (cases "sock_closed p1")
    case True
    then have "i_close p1 None = (Inr (p1, []) :: 'e outcome)"
      by (rule i_close_closed)
    then show ?thesis
      using lt
      by (simp add: read_again_def Let_def then_do_def begin_write_def i_def [symmetric]
          p1_def [symmetric] split: option.splits)
  next
    case False
    then have "i_close p1 None =
        (Inr (p1\<lparr>sock_closed := True, keep_alive := True, writable_in := None,
                 readable_out := None\<rparr>,
              (case writable_in p1 of
                 None \<Rightarrow> []
               | Some w \<Rightarrow> [Unset_resume_notification w, Close_endpoint w None])
              @ (case readable_out p1 of None \<Rightarrow> [] | Some r \<Rightarrow> [Close_endpoint r None])
              @ [Uv_read_stop, I_close_handle]) :: 'e outcome)"
      by (rule i_close_open)
    then show ?thesis
      using lt
      by (simp add: read_again_def Let_def then_do_def begin_write_def i_def [symmetric]
          p1_def [symmetric] split: option.splits)
  qed
  ultimately show ?thesis
    by (simp add: p1_def i_def)
qed

text \<open>
  A completion whose request is not in \<^verbatim>\<open>write_reqs_\<close>: after the log line and
  \<^verbatim>\<open>i_close\<close>, the handler goes on to \<^verbatim>\<open>iter->buf_len_\<close> with \<^verbatim>\<open>iter == end( )\<close>.
\<close>

lemma read_again_not_found:
  assumes "find_if (\<lambda>item. r = req item) (write_reqs p) = length (write_reqs p)"
  shows "\<exists>p' cs. i_close p None = (Inr (p', cs) :: 'e outcome)
           \<and> read_again p r status = Inl (End_iterator_dereference, p', Cerr # cs)"
proof -
  obtain p' cs where h: "i_close p None = (Inr (p', cs) :: 'e outcome)"
    using i_close_returns by blast
  have "write_reqs p' = write_reqs p"
    using h by (cases "sock_closed p") (auto simp: i_close_closed i_close_open)
  then have "read_again p r status = (Inl (End_iterator_dereference, p', Cerr # cs) :: 'e outcome)"
    using assms h by (simp add: read_again_def Let_def then_do_def)
  then show ?thesis using h by blast
qed

text \<open>
  Claim C8 is what the handler should do, and the code does not: the branch for a
  request that is not found has no \<^verbatim>\<open>return\<close>. For a completion of request 5 on a
  socket with no write in flight, the handler logs, closes the socket, and then reads
  \<^verbatim>\<open>iter->buf_len_\<close> through the end iterator.
\<close>

theorem read_again_unknown_request:
  "read_again connected 5 0
     = (Inl (End_iterator_dereference,
             connected\<lparr>sock_closed := True, writable_in := None, readable_out := None\<rparr>,
             [Cerr, Unset_resume_notification 1, Close_endpoint 1 None, Close_endpoint 2 None,
              Uv_read_stop, I_close_handle]) :: int outcome)"
  by (simp add: read_again_def connected_def i_close_def stop_read_def then_do_def)

end
